theory Spec2Isabelle
  imports Complex_Main
begin

section \<open>Strings and characters\<close>

text \<open>
  Strings are lists of characters. The engine only ever distinguishes the ASCII letters,
  the digits and the wildcard symbol \<open>?\<close>, so \<open>toUpperCase\<close> is modelled on the ASCII
  range: \<open>a\<close>..\<open>z\<close> go to \<open>A\<close>..\<open>Z\<close>, every other character is left alone.
\<close>

definition isUpper :: "char \<Rightarrow> bool" where
  "isUpper c = (65 \<le> (of_char c :: nat) \<and> (of_char c :: nat) \<le> 90)"

definition isLower :: "char \<Rightarrow> bool" where
  "isLower c = (97 \<le> (of_char c :: nat) \<and> (of_char c :: nat) \<le> 122)"

definition isDigit :: "char \<Rightarrow> bool" where
  "isDigit c = (48 \<le> (of_char c :: nat) \<and> (of_char c :: nat) \<le> 57)"

definition toUpperChar :: "char \<Rightarrow> char" where
  "toUpperChar c = (if isLower c then char_of ((of_char c :: nat) - 32) else c)"

definition toUpperCase :: "string \<Rightarrow> string" where
  "toUpperCase s = map toUpperChar s"

text \<open>
  A pattern as the HTTP layer lets it through (\<open>/^[A-Za-z?]+$/\<close> without the
  non-emptiness), and a pattern after normalisation.
\<close>

definition patternChar :: "char \<Rightarrow> bool" where
  "patternChar c = (isUpper c \<or> isLower c \<or> c = CHR ''?'')"

definition normalizedChar :: "char \<Rightarrow> bool" where
  "normalizedChar c = (isUpper c \<or> c = CHR ''?'')"

section \<open>The regular expressions the engine builds\<close>

text \<open>
  \<open>findMatchingAnswers\<close> builds its matcher with
  \<^verbatim>\<open>new RegExp('^' + normalizedPattern.replace(/\?/g, '[A-Z]') + '$')\<close>.
  The source text of the expression is modelled as a string, and the expression itself as
  the list of its atoms. \<open>RegExp_new\<close> reads the fragment of the syntax such a source can
  contain when the pattern is made of letters, digits and \<open>?\<close>: the two anchors, the class
  \<open>[A-Z]\<close> and literal letters and digits. Anything else is outside the fragment
  (\<open>None\<close>).
\<close>

datatype rx = Bol | Eol | Lit char | UpperClass

definition replaceWildcards :: "string \<Rightarrow> string" where
  "replaceWildcards p = concat (map (\<lambda>c. if c = CHR ''?'' then ''[A-Z]'' else [c]) p)"

definition regexSource :: "string \<Rightarrow> string" where
  "regexSource p = ''^'' @ replaceWildcards p @ ''$''"

fun RegExp_new :: "string \<Rightarrow> rx list option" where
  "RegExp_new [] = Some []"
| "RegExp_new (c # cs) =
     (if c = CHR ''^'' then map_option ((#) Bol) (RegExp_new cs)
      else if c = CHR ''$'' then map_option ((#) Eol) (RegExp_new cs)
      else if c = CHR ''['' then
        (case cs of
           a # b # d # e # rest \<Rightarrow>
             if a = CHR ''A'' \<and> b = CHR ''-'' \<and> d = CHR ''Z'' \<and> e = CHR '']''
             then map_option ((#) UpperClass) (RegExp_new rest) else None
         | _ \<Rightarrow> None)
      else if isUpper c \<or> isLower c \<or> isDigit c then map_option ((#) (Lit c)) (RegExp_new cs)
      else None)"

text \<open>
  Matching the atoms against the subject \<open>s\<close> from position \<open>i\<close>. Without the \<open>m\<close> flag
  \<open>^\<close> holds at position 0 only and \<open>$\<close> at the end of the subject only; without the
  \<open>i\<close> flag a literal and the class are case sensitive.
\<close>

fun rxMatchAt :: "rx list \<Rightarrow> string \<Rightarrow> nat \<Rightarrow> bool" where
  "rxMatchAt [] s i = True"
| "rxMatchAt (Bol # r) s i = (i = 0 \<and> rxMatchAt r s i)"
| "rxMatchAt (Eol # r) s i = (i = length s \<and> rxMatchAt r s i)"
| "rxMatchAt (Lit c # r) s i = (i < length s \<and> s ! i = c \<and> rxMatchAt r s (Suc i))"
| "rxMatchAt (UpperClass # r) s i = (i < length s \<and> isUpper (s ! i) \<and> rxMatchAt r s (Suc i))"

text \<open>\<open>regex.test(s)\<close>: the expression matches somewhere in the subject.\<close>

definition regexTest :: "rx list \<Rightarrow> string \<Rightarrow> bool" where
  "regexTest r s = list_ex (rxMatchAt r s) [0 ..< Suc (length s)]"

text \<open>What the specification says the compiled matcher accepts.\<close>

definition specMatches :: "string \<Rightarrow> string \<Rightarrow> bool" where
  "specMatches p a =
     (length a = length p \<and>
      (\<forall>i < length p. if p ! i = CHR ''?'' then isUpper (a ! i) else a ! i = p ! i))"

section \<open>Data model\<close>

text \<open>
  The interfaces of the loader. A JavaScript object used as a dictionary
  (\<open>Record<string, T>\<close>) is an association list of its own properties in enumeration
  order, read with \<open>map_of\<close>; a property that is absent reads as \<open>undefined\<close>, here
  \<open>None\<close>.
\<close>

record AnswerMatch =
  answer :: string
  count :: int

record Chunk =
  answers :: "AnswerMatch list"
  clues :: "(string \<times> string list) list"

record ChunkManifest =
  totalEntries :: int
  chunkCount :: int
  buildTime :: string
  chunks :: "(string \<times> (string \<times> string) list) list"

record CachedResult =
  results :: "AnswerMatch list"
  timestamp :: int

text \<open>
  The storage backend. \<open>dataBucket.get(key)\<close> rejects, resolves to \<open>null\<close> or resolves
  to an object whose text \<open>JSON.parse\<close> decodes or not. The decoded value is typed: a body
  that is not of the interface the caller casts it to counts as undecodable.
\<close>

datatype body = ManifestJson ChunkManifest | ChunkJson Chunk | NotJson

datatype r2_get = GetRejects | GetNull | GetObject body

type_synonym R2Bucket = "string \<Rightarrow> r2_get"

datatype error =
    StorageError
  | ManifestNotFound
  | ChunkNotFound string
  | JsonError
  | TypeError
  | RegExpOutsideFragment

datatype strategy = Direct | ParallelOptimized

record PatternAnalysis =
  wildcardCount :: nat
  wildcardPositions :: "nat list"
  startsWithWildcard :: bool
  isHighCostPattern :: bool
  searchStrategy :: strategy

text \<open>
  The loader object: the manifest (\<open>null\<close> until loaded) and the two \<open>Map\<close>s. A
  \<open>Map\<close> is the list of its entries in insertion order.
\<close>

record Loader =
  manifest :: "ChunkManifest option"
  chunkCache :: "(string \<times> Chunk) list"
  resultCache :: "(string \<times> CachedResult) list"

definition newLoader :: Loader where
  "newLoader = \<lparr>manifest = None, chunkCache = [], resultCache = []\<rparr>"

definition CACHE_TTL :: int where
  "CACHE_TTL = 5 * 60 * 1000"

definition MAX_RESULT_CACHE_SIZE :: nat where
  "MAX_RESULT_CACHE_SIZE = 100"

section \<open>JavaScript built-ins\<close>

text \<open>\<open>Map.prototype.set\<close>: an existing key keeps its position, a new key goes last.\<close>

fun mapSet :: "'k \<Rightarrow> 'v \<Rightarrow> ('k \<times> 'v) list \<Rightarrow> ('k \<times> 'v) list" where
  "mapSet k v [] = [(k, v)]"
| "mapSet k v ((k', v') # m) = (if k = k' then (k, v) # m else (k', v') # mapSet k v m)"

definition mapDelete :: "'k \<Rightarrow> ('k \<times> 'v) list \<Rightarrow> ('k \<times> 'v) list" where
  "mapDelete k m = filter (\<lambda>kv. fst kv \<noteq> k) m"

text \<open>\<open>map.keys().next().value\<close>: the oldest key, \<open>undefined\<close> on an empty map.\<close>

definition mapFirstKey :: "('k \<times> 'v) list \<Rightarrow> 'k option" where
  "mapFirstKey m = (case m of [] \<Rightarrow> None | kv # _ \<Rightarrow> Some (fst kv))"

text \<open>\<open>xs.slice(0, n)\<close> for an integer \<open>n\<close>: a negative end counts from the back.\<close>

definition jsSlice0 :: "'a list \<Rightarrow> int \<Rightarrow> 'a list" where
  "jsSlice0 xs n = (if n < 0 then take (nat (int (length xs) + n)) xs else take (nat n) xs)"

text \<open>
  \<open>results.sort((a, b) => b.count - a.count)\<close>: \<open>Array.prototype.sort\<close> is stable, and
  so is \<open>sort_key\<close>.
\<close>

definition sortByCountDesc :: "AnswerMatch list \<Rightarrow> AnswerMatch list" where
  "sortByCountDesc xs = sort_key (\<lambda>a. - count a) xs"

text \<open>\<open>[...new Set(xs)]\<close>: the first occurrence of every element, in order.\<close>

fun setDedupe :: "'a list \<Rightarrow> 'a list \<Rightarrow> 'a list" where
  "setDedupe seen [] = seen"
| "setDedupe seen (x # xs) = setDedupe (if x \<in> set seen then seen else seen @ [x]) xs"

text \<open>The decimal text of a number used as a property key (\<open>chunks[length]\<close>).\<close>

fun decimal :: "nat \<Rightarrow> string" where
  "decimal n = (if n < 10 then [char_of (48 + n)] else decimal (n div 10) @ [char_of (48 + n mod 10)])"

declare decimal.simps [simp del]

text \<open>\<open>s.replace(/[^A-Z0-9]/g, '_')\<close>.\<close>

definition sanitize :: "string \<Rightarrow> string" where
  "sanitize s = map (\<lambda>c. if isUpper c \<or> isDigit c then c else CHR ''_'') s"

section \<open>Manifest and shard loading\<close>

definition loadManifest :: "R2Bucket \<Rightarrow> Loader \<Rightarrow> error + Loader" where
  "loadManifest bucket st =
     (case manifest st of
        Some m \<Rightarrow> Inr st
      | None \<Rightarrow>
          (case bucket ''chunked-indexes/manifest.json'' of
             GetRejects \<Rightarrow> Inl StorageError
           | GetNull \<Rightarrow> Inl ManifestNotFound
           | GetObject (ManifestJson m) \<Rightarrow> Inr (st\<lparr>manifest := Some m\<rparr>)
           | GetObject _ \<Rightarrow> Inl JsonError))"

text \<open>The fetch and decode of one shard, the part of \<open>loadChunk\<close> after a cache miss.\<close>

definition fetchChunk :: "R2Bucket \<Rightarrow> string \<Rightarrow> error + Chunk" where
  "fetchChunk bucket fileName =
     (case bucket (''chunked-indexes/'' @ fileName) of
        GetRejects \<Rightarrow> Inl StorageError
      | GetNull \<Rightarrow> Inl (ChunkNotFound fileName)
      | GetObject (ChunkJson c) \<Rightarrow> Inr c
      | GetObject _ \<Rightarrow> Inl JsonError)"

text \<open>
  \<open>chunkCache.set\<close> followed by the size check: above 10 entries the oldest key goes,
  unless that key is falsy (the empty string).
\<close>

definition cacheInsert :: "string \<Rightarrow> Chunk \<Rightarrow> (string \<times> Chunk) list \<Rightarrow> (string \<times> Chunk) list" where
  "cacheInsert fileName chunk cache =
     (let cache1 = mapSet fileName chunk cache in
      if length cache1 > 10 then
        (case mapFirstKey cache1 of
           Some firstKey \<Rightarrow> if firstKey \<noteq> [] then mapDelete firstKey cache1 else cache1
         | None \<Rightarrow> cache1)
      else cache1)"

definition loadChunk :: "R2Bucket \<Rightarrow> string \<Rightarrow> Loader \<Rightarrow> (error + Chunk) \<times> Loader" where
  "loadChunk bucket fileName st =
     (case map_of (chunkCache st) fileName of
        Some c \<Rightarrow> (Inr c, st)
      | None \<Rightarrow>
          (case fetchChunk bucket fileName of
             Inl e \<Rightarrow> (Inl e, st)
           | Inr c \<Rightarrow> (Inr c, st\<lparr>chunkCache := cacheInsert fileName c (chunkCache st)\<rparr>)))"

text \<open>
  The order in which concurrent fetches complete is the scheduler's choice: a list of
  numbers, each picking one of the fetches still in flight.
\<close>

fun completionOrder :: "nat list \<Rightarrow> 'a list \<Rightarrow> 'a list" where
  "completionOrder [] xs = xs"
| "completionOrder (n # ns) xs =
     (if xs = [] then []
      else let i = n mod length xs in xs ! i # completionOrder ns (take i xs @ drop (Suc i) xs))"

text \<open>
  \<open>loadChunksParallel\<close>: every \<open>loadChunk\<close> call runs to its first \<open>await\<close> before any
  fetch completes, so every cache test sees the cache as it is at the call. The fetched
  shards then enter the cache in completion order. \<open>Promise.allSettled\<close> keeps the order
  of the calls, and the rejected ones are filtered out.
\<close>

definition loadChunksParallel ::
  "R2Bucket \<Rightarrow> nat list \<Rightarrow> string list \<Rightarrow> Loader \<Rightarrow> Chunk list \<times> Loader" where
  "loadChunksParallel bucket order chunkFiles st =
     (let cache = chunkCache st;
          settled = map (\<lambda>f. case map_of cache f of Some c \<Rightarrow> Inr c | None \<Rightarrow> fetchChunk bucket f)
                      chunkFiles;
          fetched = concat (map (\<lambda>f. case map_of cache f of
                                         Some c \<Rightarrow> []
                                       | None \<Rightarrow> (case fetchChunk bucket f of
                                                    Inl e \<Rightarrow> [] | Inr c \<Rightarrow> [(f, c)]))
                              chunkFiles);
          cache' = fold (\<lambda>fc. cacheInsert (fst fc) (snd fc)) (completionOrder order fetched) cache
      in (concat (map (\<lambda>r. case r of Inl e \<Rightarrow> [] | Inr c \<Rightarrow> [c]) settled),
          st\<lparr>chunkCache := cache'\<rparr>))"

section \<open>Shard selection and pattern analysis\<close>

text \<open>
  \<open>pattern[0]\<close> of the empty string is \<open>undefined\<close>; it differs from \<open>'?'\<close>, and calling
  \<open>replace\<close> on it throws a TypeError. A file name counts as present when it is truthy,
  that is non-empty.
\<close>

definition getRelevantChunks :: "ChunkManifest option \<Rightarrow> string \<Rightarrow> error + string list" where
  "getRelevantChunks mf pattern =
     (case mf of
        None \<Rightarrow> Inr []
      | Some m \<Rightarrow>
          (let lengthChunks = map_of (chunks m) (decimal (length pattern)) in
           case pattern of
             [] \<Rightarrow> Inl TypeError
           | firstChar # _ \<Rightarrow>
               if firstChar \<noteq> CHR ''?'' then
                 (let cleanFirstChar = sanitize [firstChar] in
                  case lengthChunks of
                    None \<Rightarrow> Inr []
                  | Some lc \<Rightarrow>
                      (case map_of lc cleanFirstChar of
                         None \<Rightarrow> Inr []
                       | Some fileName \<Rightarrow> if fileName \<noteq> [] then Inr [fileName] else Inr []))
               else
                 (case lengthChunks of
                    None \<Rightarrow> Inr []
                  | Some lc \<Rightarrow> Inr (map snd lc))))"

fun scanWildcards :: "string \<Rightarrow> nat \<Rightarrow> nat list \<Rightarrow> nat \<Rightarrow> nat list \<times> nat" where
  "scanWildcards [] i positions n = (positions, n)"
| "scanWildcards (c # cs) i positions n =
     (if c = CHR ''?'' then scanWildcards cs (Suc i) (positions @ [i]) (Suc n)
      else scanWildcards cs (Suc i) positions n)"

text \<open>
  The ratio test \<open>wildcardCount / pattern.length > 0.6\<close> is written without division;
  on the empty pattern the quotient is NaN and the test fails.
\<close>

definition analyzePattern :: "string \<Rightarrow> PatternAnalysis" where
  "analyzePattern pattern =
     (let (positions, n) = scanWildcards pattern 0 [] 0;
          starts = (case pattern of [] \<Rightarrow> False | c # _ \<Rightarrow> c = CHR ''?'')
      in \<lparr>wildcardCount = n,
          wildcardPositions = positions,
          startsWithWildcard = starts,
          isHighCostPattern = (starts \<and> (n > 3 \<or> (pattern \<noteq> [] \<and> 10 * n > 6 * length pattern))),
          searchStrategy = (if starts then ParallelOptimized else Direct)\<rparr>)"

section \<open>Result cache\<close>

definition getCacheKey :: "string \<Rightarrow> string" where
  "getCacheKey pattern = ''pattern:'' @ toUpperCase pattern"

text \<open>The clock reading \<open>Date.now()\<close> is an argument.\<close>

definition getCachedResult :: "int \<Rightarrow> string \<Rightarrow> Loader \<Rightarrow> AnswerMatch list option \<times> Loader" where
  "getCachedResult now pattern st =
     (let cacheKey = getCacheKey pattern in
      case map_of (resultCache st) cacheKey of
        None \<Rightarrow> (None, st)
      | Some cached \<Rightarrow>
          if now - timestamp cached > CACHE_TTL
          then (None, st\<lparr>resultCache := mapDelete cacheKey (resultCache st)\<rparr>)
          else (Some (results cached), st))"

definition setCachedResult :: "int \<Rightarrow> string \<Rightarrow> AnswerMatch list \<Rightarrow> Loader \<Rightarrow> Loader" where
  "setCachedResult now pattern rs st =
     (let cacheKey = getCacheKey pattern;
          rc = resultCache st;
          rc1 = (if length rc \<ge> MAX_RESULT_CACHE_SIZE then
                   (case mapFirstKey rc of
                      Some oldestKey \<Rightarrow> if oldestKey \<noteq> [] then mapDelete oldestKey rc else rc
                    | None \<Rightarrow> rc)
                 else rc)
      in st\<lparr>resultCache := mapSet cacheKey \<lparr>results = rs, timestamp = now\<rparr> rc1\<rparr>)"

section \<open>Search\<close>

text \<open>The inner loop of the direct strategy: every answer is tested.\<close>

fun scanChunkDirect :: "rx list \<Rightarrow> AnswerMatch list \<Rightarrow> AnswerMatch list \<Rightarrow> AnswerMatch list" where
  "scanChunkDirect regex [] res = res"
| "scanChunkDirect regex (a # as) res =
     scanChunkDirect regex as (if regexTest regex (answer a) then res @ [a] else res)"

text \<open>The outer loop of the direct strategy: a shard that fails to load is skipped.\<close>

fun searchDirect ::
  "R2Bucket \<Rightarrow> rx list \<Rightarrow> string list \<Rightarrow> AnswerMatch list \<Rightarrow> Loader \<Rightarrow> AnswerMatch list \<times> Loader" where
  "searchDirect bucket regex [] res st = (res, st)"
| "searchDirect bucket regex (chunkFile # fs) res st =
     (case loadChunk bucket chunkFile st of
        (Inl e, st') \<Rightarrow> searchDirect bucket regex fs res st'
      | (Inr chunk, st') \<Rightarrow> searchDirect bucket regex fs (scanChunkDirect regex (answers chunk) res) st')"

text \<open>
  The loops of the parallel-optimized strategy. The inner loop breaks after a push that
  brings the results to \<open>maxResults * 2\<close>; the outer loop breaks after a shard that
  leaves them there.
\<close>

fun scanChunkParallel :: "rx list \<Rightarrow> int \<Rightarrow> AnswerMatch list \<Rightarrow> AnswerMatch list \<Rightarrow> AnswerMatch list" where
  "scanChunkParallel regex maxResults [] res = res"
| "scanChunkParallel regex maxResults (a # as) res =
     (if regexTest regex (answer a) then
        (let res' = res @ [a] in
         if int (length res') \<ge> maxResults * 2 then res'
         else scanChunkParallel regex maxResults as res')
      else scanChunkParallel regex maxResults as res)"

fun scanChunksParallel :: "rx list \<Rightarrow> int \<Rightarrow> Chunk list \<Rightarrow> AnswerMatch list \<Rightarrow> AnswerMatch list" where
  "scanChunksParallel regex maxResults [] res = res"
| "scanChunksParallel regex maxResults (chunk # cs) res =
     (let res' = scanChunkParallel regex maxResults (answers chunk) res in
      if int (length res') \<ge> maxResults * 2 then res'
      else scanChunksParallel regex maxResults cs res')"

text \<open>
  The same two loops with a log of the answers the matcher was run on, to state which
  answers are scanned. The log is not a variable of the program.
\<close>

fun scanChunkParallelLog ::
  "rx list \<Rightarrow> int \<Rightarrow> AnswerMatch list \<Rightarrow> AnswerMatch list \<times> AnswerMatch list
     \<Rightarrow> AnswerMatch list \<times> AnswerMatch list" where
  "scanChunkParallelLog regex maxResults [] (res, tested) = (res, tested)"
| "scanChunkParallelLog regex maxResults (a # as) (res, tested) =
     (if regexTest regex (answer a) then
        (let res' = res @ [a] in
         if int (length res') \<ge> maxResults * 2 then (res', tested @ [a])
         else scanChunkParallelLog regex maxResults as (res', tested @ [a]))
      else scanChunkParallelLog regex maxResults as (res, tested @ [a]))"

fun scanChunksParallelLog ::
  "rx list \<Rightarrow> int \<Rightarrow> Chunk list \<Rightarrow> AnswerMatch list \<times> AnswerMatch list
     \<Rightarrow> AnswerMatch list \<times> AnswerMatch list" where
  "scanChunksParallelLog regex maxResults [] (res, tested) = (res, tested)"
| "scanChunksParallelLog regex maxResults (chunk # cs) (res, tested) =
     (let (res', tested') = scanChunkParallelLog regex maxResults (answers chunk) (res, tested) in
      if int (length res') \<ge> maxResults * 2 then (res', tested')
      else scanChunksParallelLog regex maxResults cs (res', tested'))"

text \<open>
  \<open>findMatchingAnswers(pattern, maxResults = 100)\<close>. An omitted argument is \<open>None\<close>.
  \<open>tGet\<close> and \<open>tSet\<close> are the two readings of the clock, \<open>order\<close> the completion order
  of the concurrent fetches. An exception that no handler of the method catches is the
  result \<open>Inl\<close>.
\<close>

definition findMatchingAnswers ::
  "R2Bucket \<Rightarrow> int \<Rightarrow> int \<Rightarrow> nat list \<Rightarrow> string \<Rightarrow> int option \<Rightarrow> Loader
     \<Rightarrow> (error + AnswerMatch list) \<times> Loader" where
  "findMatchingAnswers bucket tGet tSet order pattern maxResultsArg st0 =
     (let maxResults = (case maxResultsArg of None \<Rightarrow> 100 | Some n \<Rightarrow> n) in
      case loadManifest bucket st0 of
        Inl e \<Rightarrow> (Inl e, st0)
      | Inr st1 \<Rightarrow>
          (let normalizedPattern = toUpperCase pattern in
           case getCachedResult tGet normalizedPattern st1 of
             (Some cachedResult, st2) \<Rightarrow> (Inr (jsSlice0 cachedResult maxResults), st2)
           | (None, st2) \<Rightarrow>
               (let patternAnalysis = analyzePattern normalizedPattern in
                case RegExp_new (regexSource normalizedPattern) of
                  None \<Rightarrow> (Inl RegExpOutsideFragment, st2)
                | Some regex \<Rightarrow>
                    (case getRelevantChunks (manifest st2) normalizedPattern of
                       Inl e \<Rightarrow> (Inl e, st2)
                     | Inr relevantChunks \<Rightarrow>
                         (let (found, st3) =
                                (case searchStrategy patternAnalysis of
                                   Direct \<Rightarrow> searchDirect bucket regex relevantChunks [] st2
                                 | ParallelOptimized \<Rightarrow>
                                     (let (loaded, st') = loadChunksParallel bucket order relevantChunks st2
                                      in (scanChunksParallel regex maxResults loaded [], st')));
                              sortedResults = jsSlice0 (sortByCountDesc found) maxResults
                          in (Inr sortedResults, setCachedResult tSet normalizedPattern sortedResults st3))))))"

section \<open>Clues\<close>

text \<open>
  The Fisher-Yates loop \<open>for (i = n - 1; i > 0; i--)\<close>. \<open>rnd k\<close> is the value of the
  \<open>k\<close>-th call of \<open>Math.random()\<close>, a number in \<open>[0, 1)\<close>.
\<close>

definition swapAt :: "nat \<Rightarrow> nat \<Rightarrow> 'a list \<Rightarrow> 'a list" where
  "swapAt i j xs = xs[i := xs ! j, j := xs ! i]"

fun fisherYates :: "(nat \<Rightarrow> real) \<Rightarrow> nat \<Rightarrow> nat \<Rightarrow> 'a list \<Rightarrow> 'a list" where
  "fisherYates rnd k 0 xs = xs"
| "fisherYates rnd k (Suc i') xs =
     (let i = Suc i'; j = nat \<lfloor>rnd k * real (i + 1)\<rfloor>
      in fisherYates rnd (Suc k) i' (swapAt i j xs))"

definition getClues ::
  "R2Bucket \<Rightarrow> (nat \<Rightarrow> real) \<Rightarrow> string \<Rightarrow> int option \<Rightarrow> Loader \<Rightarrow> (error + string list) \<times> Loader" where
  "getClues bucket rnd ans maxCluesArg st0 =
     (let maxClues = (case maxCluesArg of None \<Rightarrow> 10 | Some n \<Rightarrow> n) in
      case loadManifest bucket st0 of
        Inl e \<Rightarrow> (Inl e, st0)
      | Inr st1 \<Rightarrow>
          (let normalizedAnswer = toUpperCase ans in
           case normalizedAnswer of
             [] \<Rightarrow> (Inl TypeError, st1)
           | firstLetter # _ \<Rightarrow>
               (let cleanFirstLetter = sanitize [firstLetter];
                    lengthChunks = (case manifest st1 of
                                      None \<Rightarrow> None
                                    | Some m \<Rightarrow> map_of (chunks m) (decimal (length normalizedAnswer)))
                in case lengthChunks of
                     None \<Rightarrow> (Inr [], st1)
                   | Some lc \<Rightarrow>
                       (case map_of lc cleanFirstLetter of
                          None \<Rightarrow> (Inr [], st1)
                        | Some fileName \<Rightarrow>
                            if fileName = [] then (Inr [], st1)
                            else
                              (case loadChunk bucket fileName st1 of
                                 (Inl e, st2) \<Rightarrow> (Inr [], st2)
                               | (Inr chunk, st2) \<Rightarrow>
                                   (let stored = (case map_of (clues chunk) normalizedAnswer of
                                                    None \<Rightarrow> [] | Some cl \<Rightarrow> cl);
                                        uniqueClues = setDedupe [] stored;
                                        shuffled = fisherYates rnd 0 (length uniqueClues - 1) uniqueClues
                                    in (Inr (jsSlice0 shuffled maxClues), st2)))))))"

section \<open>Requests\<close>




section \<open>Notions of the specification\<close>

text \<open>
  The shard the manifest registers for a length and a bucket, and the shards it registers
  for a length.
\<close>

definition shardOf :: "ChunkManifest \<Rightarrow> nat \<Rightarrow> string \<Rightarrow> string option" where
  "shardOf m len bucketKey =
     (case map_of (chunks m) (decimal len) of None \<Rightarrow> None | Some lc \<Rightarrow> map_of lc bucketKey)"

definition shardsOfLength :: "ChunkManifest \<Rightarrow> nat \<Rightarrow> string set" where
  "shardsOfLength m len = {f. \<exists>bucketKey. shardOf m len bucketKey = Some f}"

text \<open>
  A manifest as the build writes it: within a length every bucket occurs once (it is an
  object) and every shard identifier is a file name, so not empty.
\<close>

definition wfManifest :: "ChunkManifest \<Rightarrow> bool" where
  "wfManifest m =
     list_all (\<lambda>entry. distinct (map fst (snd entry)) \<and> list_all (\<lambda>bf. snd bf \<noteq> []) (snd entry))
       (chunks m)"

text \<open>The outcome of loading a shard when the shard cache is \<open>cache\<close>.\<close>

definition loadOutcome :: "R2Bucket \<Rightarrow> (string \<times> Chunk) list \<Rightarrow> string \<Rightarrow> error + Chunk" where
  "loadOutcome bucket cache fileName =
     (case map_of cache fileName of Some c \<Rightarrow> Inr c | None \<Rightarrow> fetchChunk bucket fileName)"

text \<open>The candidate shards that load, in the order of the candidates.\<close>

definition healthyChunks :: "R2Bucket \<Rightarrow> (string \<times> Chunk) list \<Rightarrow> string list \<Rightarrow> Chunk list" where
  "healthyChunks bucket cache fs =
     concat (map (\<lambda>f. case loadOutcome bucket cache f of Inl e \<Rightarrow> [] | Inr c \<Rightarrow> [c]) fs)"

text \<open>The shards a sequence of \<open>loadChunk\<close> calls yields, each call seeing the cache the
  calls before it left.\<close>

fun loadedInTurn :: "R2Bucket \<Rightarrow> string list \<Rightarrow> Loader \<Rightarrow> Chunk list" where
  "loadedInTurn bucket [] st = []"
| "loadedInTurn bucket (f # fs) st =
     (case loadChunk bucket f st of
        (Inl e, st') \<Rightarrow> loadedInTurn bucket fs st'
      | (Inr c, st') \<Rightarrow> c # loadedInTurn bucket fs st')"


text \<open>The answers of a list of shards that the matcher accepts, in scan order.\<close>

definition matchesOf :: "rx list \<Rightarrow> Chunk list \<Rightarrow> AnswerMatch list" where
  "matchesOf regex cs = filter (\<lambda>a. regexTest regex (answer a)) (concat (map answers cs))"

text \<open>
  The matches accumulated from the shards that load: all of them under the direct
  strategy, the first \<open>2 * maxResults\<close> in scan order under the parallel-optimized one.
\<close>

definition accumulatedMatches :: "string \<Rightarrow> int \<Rightarrow> Chunk list \<Rightarrow> AnswerMatch list" where
  "accumulatedMatches p maxResults healthy =
     (let ms = filter (\<lambda>a. specMatches p (answer a)) (concat (map answers healthy))
      in if take 1 p = ''?'' then take (nat (2 * maxResults)) ms else ms)"

text \<open>
  The shortest prefix of a list that holds \<open>n\<close> elements satisfying \<open>P\<close>; the whole list
  when it holds fewer.
\<close>

fun scannedPrefix :: "nat \<Rightarrow> ('a \<Rightarrow> bool) \<Rightarrow> 'a list \<Rightarrow> 'a list" where
  "scannedPrefix n P [] = []"
| "scannedPrefix n P (x # xs) =
     (if P x then (if n \<le> 1 then [x] else x # scannedPrefix (n - 1) P xs)
      else x # scannedPrefix n P xs)"










section \<open>A small corpus\<close>

definition exampleManifest :: ChunkManifest where
  "exampleManifest =
     \<lparr>totalEntries = 9, chunkCount = 4, buildTime = ''2025-01-01T00:00:00.000Z'',
      chunks = [(''5'', [(''A'', ''chunk_5_A.json''), (''B'', ''chunk_5_B.json''),
                         (''C'', ''chunk_5_C.json'')]),
                (''1'', [(''A'', ''chunk_1_A.json'')])]\<rparr>"

definition chunk5A :: Chunk where
  "chunk5A =
     \<lparr>answers = [\<lparr>answer = ''AMPLE'', count = 3\<rparr>, \<lparr>answer = ''APPLE'', count = 12\<rparr>,
                 \<lparr>answer = ''ANGLE'', count = 7\<rparr>],
      clues = [(''APPLE'', [''a'', ''a'', ''b'']), (''AMPLE'', [''plentiful''])]\<rparr>"

definition chunk5C :: Chunk where
  "chunk5C =
     \<lparr>answers = [\<lparr>answer = ''CABLE'', count = 5\<rparr>, \<lparr>answer = ''CYCLE'', count = 9\<rparr>],
      clues = [(''CABLE'', [''wire''])]\<rparr>"

definition chunk1A :: Chunk where
  "chunk1A = \<lparr>answers = [\<lparr>answer = ''A'', count = 4\<rparr>], clues = []\<rparr>"

text \<open>The shard of bucket \<open>B\<close> is registered but missing from the store.\<close>

definition exampleBucket :: R2Bucket where
  "exampleBucket key =
     (if key = ''chunked-indexes/manifest.json'' then GetObject (ManifestJson exampleManifest)
      else if key = ''chunked-indexes/chunk_5_A.json'' then GetObject (ChunkJson chunk5A)
      else if key = ''chunked-indexes/chunk_5_C.json'' then GetObject (ChunkJson chunk5C)
      else if key = ''chunked-indexes/chunk_1_A.json'' then GetObject (ChunkJson chunk1A)
      else GetNull)"

definition emptyBucket :: R2Bucket where
  "emptyBucket key = GetNull"

text \<open>Sixty answers \<open>AAA\<close>, \<open>AAB\<close>, ... in one shard.\<close>

definition manyAnswers :: "AnswerMatch list" where
  "manyAnswers =
     map (\<lambda>n. \<lparr>answer = [CHR ''A'', char_of (65 + n div 26), char_of (65 + n mod 26)], count = int n\<rparr>)
       [0 ..< 60]"

definition bigBucket :: R2Bucket where
  "bigBucket key =
     (if key = ''chunked-indexes/manifest.json'' then
        GetObject (ManifestJson \<lparr>totalEntries = 60, chunkCount = 1, buildTime = [],
                                 chunks = [(''3'', [(''A'', ''chunk_3_A.json'')])]\<rparr>)
      else if key = ''chunked-indexes/chunk_3_A.json'' then
        GetObject (ChunkJson \<lparr>answers = manyAnswers, clues = []\<rparr>)
      else GetNull)"

text \<open>Two sources of random numbers.\<close>

definition zeroRandom :: "nat \<Rightarrow> real" where
  "zeroRandom k = 0"

definition halfRandom :: "nat \<Rightarrow> real" where
  "halfRandom k = 1 / 2"





section \<open>The matcher\<close>

lemma isUpper_not_special:
  assumes "isUpper c"
  shows "c \<noteq> CHR ''^''" "c \<noteq> CHR ''$''" "c \<noteq> CHR ''[''" "c \<noteq> CHR ''?''"
  using assms by (auto simp: isUpper_def)

lemma replaceWildcards_Cons:
  "replaceWildcards (c # p) = (if c = CHR ''?'' then ''[A-Z]'' else [c]) @ replaceWildcards p"
  by (simp add: replaceWildcards_def)

lemma RegExp_new_replaceWildcards:
  assumes "\<forall>c \<in> set p. normalizedChar c"
  shows "RegExp_new (replaceWildcards p @ t) =
           map_option ((@) (map (\<lambda>c. if c = CHR ''?'' then UpperClass else Lit c) p)) (RegExp_new t)"
  using assms
proof (induction p)
  case Nil
  show ?case by (simp add: replaceWildcards_def option.map_ident)
next
  case (Cons c p)
  then have ih: "RegExp_new (replaceWildcards p @ t) =
      map_option ((@) (map (\<lambda>c. if c = CHR ''?'' then UpperClass else Lit c) p)) (RegExp_new t)"
    by simp
  show ?case
  proof (cases "c = CHR ''?''")
    case True
    then show ?thesis
      by (simp add: replaceWildcards_Cons ih option.map_comp comp_def)
  next
    case False
    with Cons.prems have up: "isUpper c" by (simp add: normalizedChar_def)
    show ?thesis
      using False up isUpper_not_special[OF up]
      by (simp add: replaceWildcards_Cons ih option.map_comp comp_def)
  qed
qed

lemma RegExp_new_regexSource:
  assumes "\<forall>c \<in> set p. normalizedChar c"
  shows "RegExp_new (regexSource p) =
           Some (Bol # map (\<lambda>c. if c = CHR ''?'' then UpperClass else Lit c) p @ [Eol])"
  using RegExp_new_replaceWildcards[OF assms, of "''$''"]
  by (simp add: regexSource_def)

lemma rxMatchAt_body:
  "rxMatchAt (map (\<lambda>c. if c = CHR ''?'' then UpperClass else Lit c) p @ [Eol]) s i =
     (i + length p = length s \<and>
      (\<forall>k < length p. if p ! k = CHR ''?'' then isUpper (s ! (i + k)) else s ! (i + k) = p ! k))"
proof (induction p arbitrary: i)
  case Nil
  show ?case by auto
next
  case (Cons c p)
  have all_Suc: "\<And>P. (\<forall>k < Suc (length p). P k) = (P 0 \<and> (\<forall>k < length p. P (Suc k)))"
    by (metis less_Suc_eq_0_disj)
  show ?case
    by (cases "c = CHR ''?''") (auto simp: Cons.IH all_Suc)
qed

lemma regexTest_anchored:
  "regexTest (Bol # r) s = rxMatchAt r s 0"
  by (auto simp: regexTest_def list_ex_iff)

text \<open>
  Claim C1. For a normalised pattern \<open>p\<close> (upper-case letters and \<open>?\<close>) the expression the
  engine compiles exists, and it accepts a candidate answer \<open>a\<close> exactly when \<open>a\<close> has the
  length of \<open>p\<close>, agrees with \<open>p\<close> at every literal position and has a letter
  \<open>A\<close>..\<open>Z\<close> at every wildcard position. An answer of another length is never accepted,
  so no proper substring match is.
\<close>

theorem matcher_full_string:
  assumes "\<forall>c \<in> set p. normalizedChar c"
  shows "\<exists>r. RegExp_new (regexSource p) = Some r \<and>
             (\<forall>a. regexTest r a = specMatches p a) \<and>
             (\<forall>a. length a \<noteq> length p \<longrightarrow> \<not> regexTest r a)"
proof -
  let ?r = "Bol # map (\<lambda>c. if c = CHR ''?'' then UpperClass else Lit c) p @ [Eol]"
  have c: "RegExp_new (regexSource p) = Some ?r"
    by (rule RegExp_new_regexSource[OF assms])
  have m: "regexTest ?r a = specMatches p a" for a
    unfolding regexTest_anchored rxMatchAt_body specMatches_def by auto
  have l: "length a \<noteq> length p \<longrightarrow> \<not> regexTest ?r a" for a
    unfolding m specMatches_def by simp
  from c m l show ?thesis by blast
qed

theorem matcher_full_string_witness:
  "list_all normalizedChar ''A?PLE'' \<and>
   (\<exists>r. RegExp_new (regexSource ''A?PLE'') = Some r \<and>
        regexTest r ''APPLE'' \<and> \<not> regexTest r ''APPLES'' \<and> \<not> regexTest r ''XAPPLE'' \<and>
        \<not> regexTest r ''AaPLE'')"
proof -
  have h: "\<forall>c \<in> set ''A?PLE''. normalizedChar c"
    by (simp add: normalizedChar_def isUpper_def)
  from matcher_full_string[OF h] obtain r where
    r: "RegExp_new (regexSource ''A?PLE'') = Some r" and
    m: "\<And>a. regexTest r a = specMatches ''A?PLE'' a" by blast
  have "specMatches ''A?PLE'' ''APPLE''"
    by (simp add: specMatches_def isUpper_def less_Suc_eq)
  moreover have "\<not> specMatches ''A?PLE'' ''APPLES''" "\<not> specMatches ''A?PLE'' ''XAPPLE''"
    by (simp_all add: specMatches_def)
  moreover have "\<not> specMatches ''A?PLE'' ''AaPLE''"
    by (auto simp: specMatches_def isUpper_def)
  ultimately show ?thesis using h r m by (auto simp: list_all_iff)
qed

section \<open>Shard selection\<close>

lemma sanitize_upper: "isUpper c \<Longrightarrow> sanitize [c] = [c]"
  by (simp add: sanitize_def)

lemma wfManifest_entry:
  assumes "wfManifest m" "map_of (chunks m) k = Some lc"
  shows "distinct (map fst lc)" "\<And>b f. map_of lc b = Some f \<Longrightarrow> f \<noteq> []"
proof -
  from assms(2) have "(k, lc) \<in> set (chunks m)" by (rule map_of_SomeD)
  with assms(1) have d: "distinct (map fst lc)" and n: "list_all (\<lambda>bf. snd bf \<noteq> []) lc"
    by (auto simp: wfManifest_def list_all_iff)
  show "distinct (map fst lc)" by (rule d)
  fix b f assume "map_of lc b = Some f"
  then have "(b, f) \<in> set lc" by (rule map_of_SomeD)
  with n show "f \<noteq> []" by (auto simp: list_all_iff)
qed

lemma shardsOfLength_values:
  assumes "distinct (map fst lc)" "map_of (chunks m) (decimal len) = Some lc"
  shows "shardsOfLength m len = set (map snd lc)"
proof -
  have "shardsOfLength m len = ran (map_of lc)"
    using assms(2) by (simp add: shardsOfLength_def shardOf_def ran_def)
  also have "\<dots> = snd ` set lc" using assms(1) by (rule ran_distinct)
  finally show ?thesis by simp
qed

text \<open>
  Claim C2. For a non-empty normalised pattern and a manifest as the build writes it, the
  candidate shards are: the one shard registered for the pattern's length and its
  (sanitised, hence unchanged) first letter when the first character is a literal and
  that bucket is registered, none when it is not; every shard registered for the
  pattern's length when the first character is the wildcard; and none when the manifest
  has no entry for the length.
\<close>

theorem candidate_shards:
  assumes "wfManifest m" and "p \<noteq> []" and "\<forall>c \<in> set p. normalizedChar c"
  shows "\<exists>fs. getRelevantChunks (Some m) p = Inr fs \<and>
           (hd p \<noteq> CHR ''?'' \<longrightarrow>
              sanitize [hd p] = [hd p] \<and>
              fs = (case shardOf m (length p) (sanitize [hd p]) of None \<Rightarrow> [] | Some f \<Rightarrow> [f])) \<and>
           (hd p = CHR ''?'' \<longrightarrow> set fs = shardsOfLength m (length p)) \<and>
           (map_of (chunks m) (decimal (length p)) = None \<longrightarrow> fs = [])"
proof -
  from assms(2) obtain c cs where p: "p = c # cs" by (cases p) auto
  show ?thesis
  proof (cases "c = CHR ''?''")
    case True
    show ?thesis
    proof (cases "map_of (chunks m) (decimal (length p))")
      case None
      then show ?thesis
        using True p by (simp add: getRelevantChunks_def shardsOfLength_def shardOf_def)
    next
      case (Some lc)
      have "shardsOfLength m (length p) = set (map snd lc)"
        using wfManifest_entry(1)[OF assms(1) Some] Some by (rule shardsOfLength_values)
      then show ?thesis
        using True p Some by (simp add: getRelevantChunks_def)
    qed
  next
    case False
    with assms(3) p have up: "isUpper c" by (simp add: normalizedChar_def)
    note san = sanitize_upper[OF up]
    show ?thesis
    proof (cases "map_of (chunks m) (decimal (length p))")
      case None
      then show ?thesis
        using False p san by (simp add: getRelevantChunks_def shardOf_def)
    next
      case (Some lc)
      show ?thesis
      proof (cases "map_of lc [c]")
        case None
        then show ?thesis
          using False p san Some by (simp add: getRelevantChunks_def shardOf_def)
      next
        case (Some f)
        have "f \<noteq> []" using wfManifest_entry(2)[OF assms(1) \<open>map_of (chunks m) (decimal (length p)) = Some lc\<close> Some] .
        then show ?thesis
          using False p san Some \<open>map_of (chunks m) (decimal (length p)) = Some lc\<close>
          by (simp add: getRelevantChunks_def shardOf_def)
      qed
    qed
  qed
qed

theorem candidate_shards_witness:
  "wfManifest exampleManifest \<and> ''A?PLE'' \<noteq> [] \<and> list_all normalizedChar ''A?PLE'' \<and>
   getRelevantChunks (Some exampleManifest) ''A?PLE'' = Inr [''chunk_5_A.json'']"
proof -
  have w: "wfManifest exampleManifest" by code_simp
  have n: "''A?PLE'' \<noteq> []" by simp
  have l: "list_all normalizedChar ''A?PLE''" by code_simp
  then have a: "\<forall>c \<in> set ''A?PLE''. normalizedChar c" by (simp only: list_all_iff)
  have s: "shardOf exampleManifest (length ''A?PLE'') (sanitize [hd ''A?PLE'']) = Some ''chunk_5_A.json''"
    by code_simp
  from candidate_shards[OF w n a] obtain fs where
    "getRelevantChunks (Some exampleManifest) ''A?PLE'' = Inr fs"
    "hd ''A?PLE'' \<noteq> CHR ''?'' \<longrightarrow> fs = (case shardOf exampleManifest (length ''A?PLE'') (sanitize [hd ''A?PLE'']) of None \<Rightarrow> [] | Some f \<Rightarrow> [f])"
    by blast
  then have "getRelevantChunks (Some exampleManifest) ''A?PLE'' = Inr [''chunk_5_A.json'']"
    unfolding s by simp
  with w n l show ?thesis by blast
qed

section \<open>Normalisation\<close>

lemma toUpperChar_normalized: "patternChar c \<Longrightarrow> normalizedChar (toUpperChar c)"
  by (auto simp: patternChar_def normalizedChar_def toUpperChar_def isUpper_def isLower_def)

lemma toUpperCase_normalized:
  "\<forall>c \<in> set p. patternChar c \<Longrightarrow> \<forall>c \<in> set (toUpperCase p). normalizedChar c"
  by (auto simp: toUpperCase_def toUpperChar_normalized)

lemma toUpperCase_eq_Nil [simp]: "(toUpperCase p = []) = (p = [])"
  by (simp add: toUpperCase_def)

lemma length_toUpperCase [simp]: "length (toUpperCase p) = length p"
  by (simp add: toUpperCase_def)

lemma getRelevantChunks_total:
  "p \<noteq> [] \<Longrightarrow> \<exists>fs. getRelevantChunks mf p = Inr fs"
  by (cases p) (auto simp: getRelevantChunks_def Let_def split: option.splits)


section \<open>The scan loops\<close>

lemma filter_scannedPrefix:
  "1 \<le> n \<Longrightarrow> filter P (scannedPrefix n P xs) = take n (filter P xs)"
proof (induction xs arbitrary: n)
  case Nil show ?case by simp
next
  case (Cons x xs)
  show ?case
  proof (cases "P x")
    case False with Cons show ?thesis by simp
  next
    case True
    show ?thesis
    proof (cases "n \<le> 1")
      case True
      with Cons.prems have "n = 1" by simp
      with \<open>P x\<close> show ?thesis by simp
    next
      case False
      then obtain n' where n': "n = Suc n'" "1 \<le> n'" by (cases n) auto
      with \<open>P x\<close> Cons.IH[of n'] show ?thesis by simp
    qed
  qed
qed

lemma scannedPrefix_is_prefix:
  "take (length (scannedPrefix n P xs)) xs = scannedPrefix n P xs"
  by (induction xs arbitrary: n) auto

lemma scannedPrefix_butlast:
  "1 \<le> n \<Longrightarrow> length (filter P (butlast (scannedPrefix n P xs))) < n"
proof (induction xs arbitrary: n)
  case Nil then show ?case by simp
next
  case (Cons x xs)
  show ?case
  proof (cases "P x")
    case False
    with Cons.IH[OF Cons.prems] Cons.prems show ?thesis by (auto simp: butlast.simps)
  next
    case True
    show ?thesis
    proof (cases "n \<le> 1")
      case True
      with Cons.prems \<open>P x\<close> show ?thesis by simp
    next
      case False
      then obtain n' where n': "n = Suc n'" "1 \<le> n'" by (cases n) auto
      with \<open>P x\<close> Cons.IH[of n'] show ?thesis by (auto simp: butlast.simps)
    qed
  qed
qed

lemma scannedPrefix_all:
  "length (filter P xs) < n \<Longrightarrow> scannedPrefix n P xs = xs"
  by (induction xs arbitrary: n) auto

lemma scannedPrefix_append:
  "1 \<le> n \<Longrightarrow> scannedPrefix n P (xs @ ys) =
     (if n \<le> length (filter P xs) then scannedPrefix n P xs
      else xs @ scannedPrefix (n - length (filter P xs)) P ys)"
proof (induction xs arbitrary: n)
  case Nil then show ?case by simp
next
  case (Cons x xs)
  show ?case
  proof (cases "P x")
    case False with Cons show ?thesis by simp
  next
    case True
    show ?thesis
    proof (cases "n \<le> 1")
      case True
      with Cons.prems \<open>P x\<close> show ?thesis by simp
    next
      case False
      then obtain n' where n': "n = Suc n'" "1 \<le> n'" by (cases n) auto
      with \<open>P x\<close> Cons.IH[of n'] show ?thesis by simp
    qed
  qed
qed

lemma scanChunkParallelLog_fst:
  "fst (scanChunkParallelLog regex m as (res, tested)) = scanChunkParallel regex m as res"
  by (induction as arbitrary: res tested) (auto simp: Let_def)

lemma scanChunksParallelLog_fst:
  "fst (scanChunksParallelLog regex m cs (res, tested)) = scanChunksParallel regex m cs res"
proof (induction cs arbitrary: res tested)
  case Nil show ?case by simp
next
  case (Cons c cs)
  obtain r t where rt: "scanChunkParallelLog regex m (answers c) (res, tested) = (r, t)"
    by (cases "scanChunkParallelLog regex m (answers c) (res, tested)")
  have r: "scanChunkParallel regex m (answers c) res = r"
    using scanChunkParallelLog_fst[of regex m "answers c" res tested] rt by simp
  show ?case using Cons.IH[of r t] by (simp add: rt r Let_def)
qed

lemma scanChunkParallelLog_spec:
  assumes "int (length res) < 2 * m"
  shows "scanChunkParallelLog regex m as (res, tested) =
     (res @ filter (\<lambda>a. regexTest regex (answer a))
               (scannedPrefix (nat (2 * m) - length res) (\<lambda>a. regexTest regex (answer a)) as),
      tested @ scannedPrefix (nat (2 * m) - length res) (\<lambda>a. regexTest regex (answer a)) as)"
  using assms
proof (induction as arbitrary: res tested)
  case Nil show ?case by simp
next
  case (Cons a as)
  show ?case
  proof (cases "regexTest regex (answer a)")
    case False
    with Cons.IH[OF Cons.prems, of "tested @ [a]"] show ?thesis by simp
  next
    case True
    show ?thesis
    proof (cases "int (length (res @ [a])) \<ge> m * 2")
      case stop: True
      with Cons.prems have "nat (2 * m) - length res \<le> 1" by simp
      with True stop show ?thesis by (simp add: Let_def)
    next
      case go: False
      then have lt: "int (length (res @ [a])) < 2 * m" by simp
      then have k: "\<not> nat (2 * m) - length res \<le> 1" by simp
      have e: "nat (2 * m) - length (res @ [a]) = nat (2 * m) - length res - 1" by simp
      show ?thesis
        using Cons.IH[OF lt, of "tested @ [a]"] True go k
        by (simp add: Let_def e del: length_append)
    qed
  qed
qed

lemma scanChunksParallelLog_spec:
  assumes "int (length res) < 2 * m"
  shows "scanChunksParallelLog regex m cs (res, tested) =
     (res @ filter (\<lambda>a. regexTest regex (answer a))
               (scannedPrefix (nat (2 * m) - length res) (\<lambda>a. regexTest regex (answer a))
                  (concat (map answers cs))),
      tested @ scannedPrefix (nat (2 * m) - length res) (\<lambda>a. regexTest regex (answer a))
                  (concat (map answers cs)))"
  using assms
proof (induction cs arbitrary: res tested)
  case Nil show ?case by simp
next
  case (Cons c cs)
  let ?P = "\<lambda>a. regexTest regex (answer a)"
  let ?k = "nat (2 * m) - length res"
  have k1: "1 \<le> ?k" using Cons.prems by simp
  note inner = scanChunkParallelLog_spec[OF Cons.prems, of regex "answers c" tested]
  let ?r = "res @ filter ?P (scannedPrefix ?k ?P (answers c))"
  have fl: "filter ?P (scannedPrefix ?k ?P (answers c)) = take ?k (filter ?P (answers c))"
    by (rule filter_scannedPrefix[OF k1])
  show ?case
  proof (cases "?k \<le> length (filter ?P (answers c))")
    case True
    then have "int (length ?r) \<ge> m * 2" using Cons.prems by (simp add: fl)
    then show ?thesis
      using True by (simp add: inner Let_def scannedPrefix_append[OF k1] del: length_append)
  next
    case False
    then have all: "scannedPrefix ?k ?P (answers c) = answers c"
      by (intro scannedPrefix_all) simp
    have lt: "int (length (res @ filter ?P (answers c))) < 2 * m" using False Cons.prems by simp
    have e: "nat (2 * m) - length (res @ filter ?P (answers c)) = ?k - length (filter ?P (answers c))"
      by simp
    show ?thesis
      using False lt Cons.IH[OF lt, of "tested @ answers c"]
      by (simp add: inner Let_def all scannedPrefix_append[OF k1] e del: length_append)
  qed
qed

lemma scanChunksParallel_take:
  assumes "1 \<le> m"
  shows "scanChunksParallel regex m cs [] = take (nat (2 * m)) (matchesOf regex cs)"
proof -
  have "scanChunksParallel regex m cs [] = fst (scanChunksParallelLog regex m cs ([], []))"
    by (simp add: scanChunksParallelLog_fst)
  also have "\<dots> = filter (\<lambda>a. regexTest regex (answer a))
               (scannedPrefix (nat (2 * m)) (\<lambda>a. regexTest regex (answer a)) (concat (map answers cs)))"
    using assms by (subst scanChunksParallelLog_spec) simp_all
  also have "\<dots> = take (nat (2 * m)) (matchesOf regex cs)"
    using assms by (simp add: filter_scannedPrefix matchesOf_def)
  finally show ?thesis .
qed

lemma scanChunkDirect_filter:
  "scanChunkDirect regex as res = res @ filter (\<lambda>a. regexTest regex (answer a)) as"
  by (induction as arbitrary: res) auto

lemma searchDirect_loadedInTurn:
  "fst (searchDirect bucket regex fs res st) = res @ matchesOf regex (loadedInTurn bucket fs st)"
proof (induction fs arbitrary: res st)
  case Nil show ?case by (simp add: matchesOf_def)
next
  case (Cons f fs)
  show ?case
    by (auto simp: Cons.IH scanChunkDirect_filter matchesOf_def split: prod.splits sum.splits)
qed


text \<open>
  Claim C6, as amended. For \<open>maxResults \<ge> 1\<close> the parallel-optimized scan accumulates
  the first \<open>2 * maxResults\<close> matches of the loaded shards in scan order and never
  more; the answers it runs the matcher on are a prefix of the shards' answers that ends
  with the match that reaches \<open>2 * maxResults\<close>, so neither the rest of that shard nor
  any later shard is scanned. The direct scan has no bound: it accumulates every match of
  every shard that loads.
\<close>

theorem early_stopping:
  assumes "1 \<le> maxResults"
  shows "(case scanChunksParallelLog regex maxResults cs ([], []) of
            (res, tested) \<Rightarrow>
              res = scanChunksParallel regex maxResults cs [] \<and>
              res = take (nat (2 * maxResults)) (matchesOf regex cs) \<and>
              int (length res) \<le> 2 * maxResults \<and>
              take (length tested) (concat (map answers cs)) = tested \<and>
              int (length (filter (\<lambda>a. regexTest regex (answer a)) (butlast tested)))
                < 2 * maxResults) \<and>
         fst (searchDirect bucket regex fs [] st) = matchesOf regex (loadedInTurn bucket fs st)"
proof -
  let ?P = "\<lambda>a. regexTest regex (answer a)"
  let ?n = "nat (2 * maxResults)"
  let ?t = "scannedPrefix ?n ?P (concat (map answers cs))"
  have n1: "1 \<le> ?n" using assms by simp
  have log: "scanChunksParallelLog regex maxResults cs ([], []) = (filter ?P ?t, ?t)"
    using assms by (subst scanChunksParallelLog_spec) simp_all
  have a: "filter ?P ?t = scanChunksParallel regex maxResults cs []"
    using scanChunksParallelLog_fst[of regex maxResults cs "[]" "[]"] log by simp
  have b: "filter ?P ?t = take ?n (matchesOf regex cs)"
    by (simp add: filter_scannedPrefix[OF n1] matchesOf_def)
  have c: "int (length (filter ?P ?t)) \<le> 2 * maxResults"
    unfolding b using assms by simp
  have d: "take (length ?t) (concat (map answers cs)) = ?t"
    by (rule scannedPrefix_is_prefix)
  have e: "int (length (filter ?P (butlast ?t))) < 2 * maxResults"
    using scannedPrefix_butlast[OF n1, of ?P "concat (map answers cs)"] assms by simp
  have f: "fst (searchDirect bucket regex fs [] st) = matchesOf regex (loadedInTurn bucket fs st)"
    by (simp add: searchDirect_loadedInTurn)
  show ?thesis unfolding log using a b c d e f by simp
qed

theorem early_stopping_witness:
  "(1::int) \<le> 1 \<and>
   scanChunksParallelLog [Bol, Lit CHR ''A'', UpperClass, UpperClass, UpperClass, UpperClass, Eol] 1
       [chunk5A, chunk5C] ([], []) =
     ([\<lparr>answer = ''AMPLE'', count = 3\<rparr>, \<lparr>answer = ''APPLE'', count = 12\<rparr>],
      [\<lparr>answer = ''AMPLE'', count = 3\<rparr>, \<lparr>answer = ''APPLE'', count = 12\<rparr>]) \<and>
   scanChunksParallel [Bol, Lit CHR ''A'', UpperClass, UpperClass, UpperClass, UpperClass, Eol] 1
       [chunk5A, chunk5C] [] =
     take (nat (2 * 1))
       (matchesOf [Bol, Lit CHR ''A'', UpperClass, UpperClass, UpperClass, UpperClass, Eol]
          [chunk5A, chunk5C])"
proof -
  let ?re = "[Bol, Lit CHR ''A'', UpperClass, UpperClass, UpperClass, UpperClass, Eol]"
  let ?got = "[\<lparr>answer = ''AMPLE'', count = 3\<rparr>, \<lparr>answer = ''APPLE'', count = 12\<rparr>]"
  have h: "(1::int) \<le> 1" by simp
  have v: "scanChunksParallelLog ?re 1 [chunk5A, chunk5C] ([], []) = (?got, ?got)"
    by code_simp
  note th = early_stopping[OF h, of ?re "[chunk5A, chunk5C]" emptyBucket "[]" newLoader]
  from th[unfolded v prod.case]
  have "?got = scanChunksParallel ?re 1 [chunk5A, chunk5C] []"
    and "?got = take (nat (2 * 1)) (matchesOf ?re [chunk5A, chunk5C])"
    by blast+
  then have "scanChunksParallel ?re 1 [chunk5A, chunk5C] [] =
      take (nat (2 * 1)) (matchesOf ?re [chunk5A, chunk5C])"
    by (rule trans[OF sym])
  with h v show ?thesis by blast
qed

text \<open>
  With \<open>maxResults = 0\<close> the bound \<open>2 * maxResults\<close> is 0, and the scan of the pattern
  \<open>?\<close> still accumulates one match: the test follows the push.
\<close>

theorem early_stopping_zero_counterexample:
  "RegExp_new (regexSource ''?'') = Some [Bol, UpperClass, Eol] \<and>
   scanChunksParallel [Bol, UpperClass, Eol] 0 [chunk1A] [] = [\<lparr>answer = ''A'', count = 4\<rparr>] \<and>
   2 * (0::int) < int (length (scanChunksParallel [Bol, UpperClass, Eol] 0 [chunk1A] []))"
  by code_simp

section \<open>Patterns the engine tolerates\<close>




section \<open>The default of maxResults\<close>

text \<open>
  With 60 matching answers in the shard, a call without \<open>maxResults\<close> returns all 60,
  a call with \<open>maxResults = 50\<close> returns 50.
\<close>

theorem default_not_50_counterexample:
  "map_sum id length (fst (findMatchingAnswers bigBucket 0 0 [] ''A??'' None newLoader)) = Inr 60 \<and>
   map_sum id length (fst (findMatchingAnswers bigBucket 0 0 [] ''A??'' (Some 50) newLoader)) = Inr 50"
  by code_simp

text \<open>
  Claim C9, as amended. A call of \<open>findMatchingAnswers\<close> without the \<open>maxResults\<close>
  argument behaves as the call with \<open>maxResults = 100\<close>: the default of the engine's
  parameter is 100.
\<close>

theorem default_maxResults_is_100:
  "findMatchingAnswers bucket tGet tSet order pattern None st =
   findMatchingAnswers bucket tGet tSet order pattern (Some 100) st"
  by (simp add: findMatchingAnswers_def)

section \<open>Clue lookup\<close>

lemma loadManifest_Some:
  "loadManifest bucket st0 = Inr st1 \<Longrightarrow> \<exists>m. manifest st1 = Some m"
  by (auto simp: loadManifest_def split: option.splits r2_get.splits body.splits)

lemma loadManifest_caches:
  "loadManifest bucket st0 = Inr st1 \<Longrightarrow>
     chunkCache st1 = chunkCache st0 \<and> resultCache st1 = resultCache st0"
  by (auto simp: loadManifest_def split: option.splits r2_get.splits body.splits)

text \<open>
  \<open>getClues\<close> awaits \<open>loadManifest\<close> before its \<open>try\<close> block, and \<open>loadManifest\<close>
  rethrows: with no manifest in the store the error reaches the caller.
\<close>

theorem clues_manifest_failure_propagates:
  "getClues emptyBucket zeroRandom ''APPLE'' (Some 10) newLoader = (Inl ManifestNotFound, newLoader)"
  by code_simp

text \<open>
  Claim C4, as amended. Once the manifest has loaded, \<open>getClues\<close> raises no error on a
  non-empty answer: it returns a clue sequence, and the sequence is empty when the
  manifest has no bucket for the answer and when the shard fails to load.
\<close>

theorem clue_lookup_absorbs_shard_failures:
  assumes "loadManifest bucket st0 = Inr st1" and "ans \<noteq> []"
  shows "\<exists>cl st'. getClues bucket rnd ans mx st0 = (Inr cl, st') \<and>
     (\<forall>m. manifest st1 = Some m \<longrightarrow>
           shardOf m (length ans) (sanitize [hd (toUpperCase ans)]) = None \<longrightarrow> cl = []) \<and>
     (\<forall>m f e. manifest st1 = Some m \<longrightarrow>
           shardOf m (length ans) (sanitize [hd (toUpperCase ans)]) = Some f \<longrightarrow>
           fst (loadChunk bucket f st1) = Inl e \<longrightarrow> cl = [])"
proof -
  from loadManifest_Some[OF assms(1)] obtain m where m: "manifest st1 = Some m" by blast
  from assms(2) obtain c cs where u: "toUpperCase ans = c # cs"
    by (cases "toUpperCase ans") auto
  have len: "length (c # cs) = length ans" using u length_toUpperCase[of ans] by simp
  show ?thesis
    using len
    by (auto simp: getClues_def assms(1) m u shardOf_def Let_def simp del: length_toUpperCase
             split: option.splits prod.splits sum.splits)
qed


theorem clue_lookup_absorbs_shard_failures_witness:
  "loadManifest exampleBucket newLoader = Inr (newLoader\<lparr>manifest := Some exampleManifest\<rparr>) \<and>
   ''berry'' \<noteq> [] \<and>
   shardOf exampleManifest (length ''berry'') (sanitize [hd (toUpperCase ''berry'')])
     = Some ''chunk_5_B.json'' \<and>
   fst (loadChunk exampleBucket ''chunk_5_B.json'' (newLoader\<lparr>manifest := Some exampleManifest\<rparr>))
     = Inl (ChunkNotFound ''chunk_5_B.json'') \<and>
   (\<exists>st'. getClues exampleBucket zeroRandom ''berry'' None newLoader = (Inr [], st'))"
proof -
  let ?st1 = "newLoader\<lparr>manifest := Some exampleManifest\<rparr>"
  have mf: "loadManifest exampleBucket newLoader = Inr ?st1" by code_simp
  have m: "manifest ?st1 = Some exampleManifest" by simp
  have ne: "''berry'' \<noteq> []" by simp
  have sh: "shardOf exampleManifest (length ''berry'') (sanitize [hd (toUpperCase ''berry'')])
     = Some ''chunk_5_B.json''" by code_simp
  have ld: "fst (loadChunk exampleBucket ''chunk_5_B.json'' ?st1) = Inl (ChunkNotFound ''chunk_5_B.json'')"
    by code_simp
  from clue_lookup_absorbs_shard_failures[OF mf ne, of zeroRandom None] obtain cl st' where
    g: "getClues exampleBucket zeroRandom ''berry'' None newLoader = (Inr cl, st')" and
    e: "\<forall>m f e. manifest ?st1 = Some m \<longrightarrow>
           shardOf m (length ''berry'') (sanitize [hd (toUpperCase ''berry'')]) = Some f \<longrightarrow>
           fst (loadChunk exampleBucket f ?st1) = Inl e \<longrightarrow> cl = []"
    by blast
  from e m sh ld have "cl = []" by blast
  with g mf ne sh ld show ?thesis by blast
qed

section \<open>Deduplication and shuffle of clues\<close>

lemma setDedupe_props:
  "distinct seen \<Longrightarrow>
     distinct (setDedupe seen xs) \<and> set (setDedupe seen xs) = set seen \<union> set xs"
  by (induction xs arbitrary: seen) auto

lemma random_index:
  assumes "0 \<le> r" "r < 1"
  shows "nat \<lfloor>r * real (Suc i)\<rfloor> \<le> i"
proof -
  have "r * real (Suc i) < real (Suc i)" using assms by simp
  then have "\<lfloor>r * real (Suc i)\<rfloor> < int (Suc i)" by (simp add: floor_less_iff)
  then show ?thesis by simp
qed

lemma swapAt_props:
  assumes "i < length xs" "j < length xs"
  shows "length (swapAt i j xs) = length xs" "set (swapAt i j xs) = set xs"
    "distinct (swapAt i j xs) = distinct xs"
  using assms by (simp_all add: swapAt_def set_swap distinct_swap)

lemma fisherYates_props:
  assumes "\<forall>k. 0 \<le> rnd k \<and> rnd k < 1" "i < length xs"
  shows "length (fisherYates rnd k i xs) = length xs \<and>
         set (fisherYates rnd k i xs) = set xs \<and>
         distinct (fisherYates rnd k i xs) = distinct xs"
  using assms(2)
proof (induction i arbitrary: k xs)
  case 0 show ?case by simp
next
  case (Suc i)
  let ?j = "nat \<lfloor>rnd k * real (Suc i + 1)\<rfloor>"
  have "?j \<le> Suc i" using random_index[of "rnd k" "Suc i"] assms(1) by simp
  with Suc.prems have j: "?j < length xs" by simp
  note sw = swapAt_props[OF Suc.prems j]
  have "i < length (swapAt (Suc i) ?j xs)" using Suc.prems sw(1) by simp
  from Suc.IH[OF this, of "Suc k"] sw show ?case by (simp add: Let_def)
qed

lemma fisherYates_shuffle:
  assumes "\<forall>k. 0 \<le> rnd k \<and> rnd k < 1"
  shows "length (fisherYates rnd 0 (length xs - 1) xs) = length xs \<and>
         set (fisherYates rnd 0 (length xs - 1) xs) = set xs \<and>
         distinct (fisherYates rnd 0 (length xs - 1) xs) = distinct xs"
proof (cases xs)
  case Nil then show ?thesis by simp
next
  case (Cons x xs')
  then have "length xs - 1 < length xs" by simp
  from fisherYates_props[OF assms this] show ?thesis .
qed

lemma jsSlice0_take: "0 \<le> n \<Longrightarrow> jsSlice0 xs n = take (nat n) xs"
  by (simp add: jsSlice0_def)

text \<open>
  Claim C8. For an answer whose shard loads and \<open>maxClues \<ge> 0\<close>, with every random
  number in \<open>[0, 1)\<close>, \<open>getClues\<close> returns pairwise distinct clues, each one of the clues
  stored for the answer (none when the answer is absent from the shard), at most
  \<open>maxClues\<close> of them and at most as many as there are distinct stored clues.
\<close>

theorem clues_distinct_subset:
  assumes mf: "loadManifest bucket st0 = Inr st1" and m: "manifest st1 = Some m"
    and ne: "ans \<noteq> []"
    and sh: "shardOf m (length ans) (sanitize [hd (toUpperCase ans)]) = Some f"
    and ld: "fst (loadChunk bucket f st1) = Inr chunk"
    and rn: "\<forall>k. 0 \<le> rnd k \<and> rnd k < 1"
    and mc: "0 \<le> maxClues"
  shows "\<exists>cl st'. getClues bucket rnd ans (Some maxClues) st0 = (Inr cl, st') \<and>
           distinct cl \<and>
           set cl \<subseteq> set (case map_of (clues chunk) (toUpperCase ans) of None \<Rightarrow> [] | Some s \<Rightarrow> s) \<and>
           (map_of (clues chunk) (toUpperCase ans) = None \<longrightarrow> cl = []) \<and>
           length cl \<le> min (nat maxClues)
              (card (set (case map_of (clues chunk) (toUpperCase ans) of None \<Rightarrow> [] | Some s \<Rightarrow> s)))"
proof -
  let ?stored = "case map_of (clues chunk) (toUpperCase ans) of None \<Rightarrow> [] | Some s \<Rightarrow> s"
  let ?u = "setDedupe [] ?stored"
  let ?s = "fisherYates rnd 0 (length ?u - 1) ?u"
  from ne obtain c cs where u: "toUpperCase ans = c # cs"
    by (cases "toUpperCase ans") auto
  have len: "length (c # cs) = length ans" using u length_toUpperCase[of ans] by simp
  from sh obtain lc where lc: "map_of (chunks m) (decimal (length ans)) = Some lc"
    and f: "map_of lc (sanitize [c]) = Some f"
    by (auto simp: shardOf_def u split: option.splits)
  have du: "distinct ?u" and su: "set ?u = set ?stored"
    using setDedupe_props[of "[]" ?stored] by simp_all
  from fisherYates_shuffle[OF rn, of ?u] du su
  have ds: "distinct ?s" and ss: "set ?s = set ?stored" and ls: "length ?s = length ?u"
    by simp_all
  have card: "card (set ?stored) = length ?u" using du su distinct_card by metis
  let ?cl = "take (nat maxClues) ?s"
  have p1: "distinct ?cl" using ds by simp
  have p2: "set ?cl \<subseteq> set ?stored" using ss set_take_subset by metis
  have p3: "length ?cl \<le> min (nat maxClues) (card (set ?stored))"
    by (metis card length_take ls min.commute order_refl)
  have p4: "map_of (clues chunk) (toUpperCase ans) = None \<longrightarrow> ?cl = []"
    by auto
  show ?thesis
  proof (cases "f = []")
    case True
    have "getClues bucket rnd ans (Some maxClues) st0 = (Inr [], st1)"
      using len True by (simp add: getClues_def mf m u lc f Let_def del: length_toUpperCase)
    then show ?thesis by simp
  next
    case False
    obtain st2 where l2: "loadChunk bucket f st1 = (Inr chunk, st2)"
      using ld by (cases "loadChunk bucket f st1") auto
    have g: "getClues bucket rnd ans (Some maxClues) st0 = (Inr ?cl, st2)"
      using len False
      by (simp add: getClues_def mf m u lc f l2 Let_def jsSlice0_take[OF mc]
               del: length_toUpperCase)
    show ?thesis
      by (rule exI[of _ ?cl], rule exI[of _ st2]) (intro conjI g p1 p2 p4 p3)
  qed
qed


theorem clues_distinct_subset_witness:
  "loadManifest exampleBucket newLoader = Inr (newLoader\<lparr>manifest := Some exampleManifest\<rparr>) \<and>
   ''apple'' \<noteq> [] \<and>
   shardOf exampleManifest (length ''apple'') (sanitize [hd (toUpperCase ''apple'')])
     = Some ''chunk_5_A.json'' \<and>
   fst (loadChunk exampleBucket ''chunk_5_A.json'' (newLoader\<lparr>manifest := Some exampleManifest\<rparr>))
     = Inr chunk5A \<and>
   (\<forall>k. 0 \<le> halfRandom k \<and> halfRandom k < 1) \<and> (0::int) \<le> 10 \<and>
   (\<exists>cl st'. getClues exampleBucket halfRandom ''apple'' (Some 10) newLoader = (Inr cl, st') \<and>
       distinct cl \<and> set cl \<subseteq> {''a'', ''b''} \<and> length cl \<le> 2)"
proof -
  let ?st1 = "newLoader\<lparr>manifest := Some exampleManifest\<rparr>"
  have mf: "loadManifest exampleBucket newLoader = Inr ?st1" by code_simp
  have m: "manifest ?st1 = Some exampleManifest" by simp
  have ne: "''apple'' \<noteq> []" by simp
  have sh: "shardOf exampleManifest (length ''apple'') (sanitize [hd (toUpperCase ''apple'')])
     = Some ''chunk_5_A.json''" by code_simp
  have ld: "fst (loadChunk exampleBucket ''chunk_5_A.json'' ?st1) = Inr chunk5A" by code_simp
  have rn: "\<forall>k. 0 \<le> halfRandom k \<and> halfRandom k < 1" by (simp add: halfRandom_def)
  have mc: "(0::int) \<le> 10" by simp
  have stored: "(case map_of (clues chunk5A) (toUpperCase ''apple'') of None \<Rightarrow> [] | Some s \<Rightarrow> s)
     = [''a'', ''a'', ''b'']" by code_simp
  have card: "card (set [''a'', ''a'', ''b'']) = 2" by simp
  from clues_distinct_subset[OF mf m ne sh ld rn mc, unfolded stored card]
  obtain cl st' where
    "getClues exampleBucket halfRandom ''apple'' (Some 10) newLoader = (Inr cl, st')"
    "distinct cl" "set cl \<subseteq> set [''a'', ''a'', ''b'']" "length cl \<le> min (nat 10) 2"
    by blast
  then have "\<exists>cl st'. getClues exampleBucket halfRandom ''apple'' (Some 10) newLoader = (Inr cl, st') \<and>
       distinct cl \<and> set cl \<subseteq> {''a'', ''b''} \<and> length cl \<le> 2"
    by auto
  with mf ne sh ld rn mc show ?thesis by blast
qed


section \<open>Search with failing shards\<close>

lemma specMatches_code [code]:
  "specMatches p a = list_all2 (\<lambda>pc ac. if pc = CHR ''?'' then isUpper ac else ac = pc) p a"
  by (auto simp: specMatches_def list_all2_conv_all_nth)

lemma compiled_matches:
  assumes "\<forall>c \<in> set p. normalizedChar c" "RegExp_new (regexSource p) = Some r"
  shows "regexTest r a = specMatches p a"
proof -
  from RegExp_new_regexSource[OF assms(1)] assms(2)
  have r: "r = Bol # map (\<lambda>c. if c = CHR ''?'' then UpperClass else Lit c) p @ [Eol]" by simp
  show ?thesis unfolding r regexTest_anchored rxMatchAt_body specMatches_def by auto
qed

lemma fst_loadChunk: "fst (loadChunk bucket f st) = loadOutcome bucket (chunkCache st) f"
  by (simp add: loadChunk_def loadOutcome_def split: option.splits sum.splits)

lemma fst_loadChunksParallel:
  "fst (loadChunksParallel bucket order fs st) = healthyChunks bucket (chunkCache st) fs"
  by (simp add: loadChunksParallel_def healthyChunks_def loadOutcome_def Let_def comp_def)

lemma loadedInTurn_single:
  "length fs \<le> 1 \<Longrightarrow> loadedInTurn bucket fs st = healthyChunks bucket (chunkCache st) fs"
proof (cases fs)
  case Nil then show ?thesis by (simp add: healthyChunks_def)
next
  case (Cons f fs')
  assume "length fs \<le> 1"
  with Cons have fs: "fs = [f]" by simp
  obtain r st' where l: "loadChunk bucket f st = (r, st')" by (cases "loadChunk bucket f st")
  with fst_loadChunk[of bucket f st] have "loadOutcome bucket (chunkCache st) f = r" by simp
  then show ?thesis by (cases r) (simp_all add: fs l healthyChunks_def)
qed

lemma getRelevantChunks_literal:
  "getRelevantChunks mf (c # cs) = Inr fs \<Longrightarrow> c \<noteq> CHR ''?'' \<Longrightarrow> length fs \<le> 1"
  by (auto simp: getRelevantChunks_def Let_def split: option.splits if_splits)

lemma searchStrategy_analyzePattern:
  "searchStrategy (analyzePattern (c # cs)) = (if c = CHR ''?'' then ParallelOptimized else Direct)"
  by (simp add: analyzePattern_def split_def)

lemma getCachedResult_keeps:
  "getCachedResult now p st = (r, st') \<Longrightarrow>
     manifest st' = manifest st \<and> chunkCache st' = chunkCache st"
  by (auto simp: getCachedResult_def Let_def split: option.splits if_splits)



lemma loadChunk_keeps:
  "loadChunk bucket f st = (r, st') \<Longrightarrow>
     manifest st' = manifest st \<and> resultCache st' = resultCache st"
  by (auto simp: loadChunk_def split: option.splits sum.splits)

lemma searchDirect_keeps:
  "searchDirect bucket regex fs res st = (found, st') \<Longrightarrow>
     manifest st' = manifest st \<and> resultCache st' = resultCache st"
proof (induction fs arbitrary: res st)
  case Nil then show ?case by simp
next
  case (Cons f fs)
  obtain r st1 where l: "loadChunk bucket f st = (r, st1)" by (cases "loadChunk bucket f st")
  note k = loadChunk_keeps[OF l]
  show ?case
  proof (cases r)
    case (Inl e)
    with Cons.prems l have "searchDirect bucket regex fs res st1 = (found, st')" by simp
    from Cons.IH[OF this] k show ?thesis by simp
  next
    case (Inr c)
    with Cons.prems l
    have "searchDirect bucket regex fs (scanChunkDirect regex (answers c) res) st1 = (found, st')"
      by simp
    from Cons.IH[OF this] k show ?thesis by simp
  qed
qed

lemma loadChunksParallel_keeps:
  "loadChunksParallel bucket order fs st = (loaded, st') \<Longrightarrow>
     manifest st' = manifest st \<and> resultCache st' = resultCache st"
  by (auto simp: loadChunksParallel_def Let_def)

text \<open>The value of a call that misses the result cache.\<close>

lemma findMatchingAnswers_miss:
  assumes m: "loadManifest bucket st0 = Inr st1"
    and ne: "p \<noteq> []" and pc: "\<forall>c \<in> set p. patternChar c"
    and miss: "getCachedResult tGet (toUpperCase p) st1 = (None, st2)"
    and mr: "maxResults = (case mx of None \<Rightarrow> 100 | Some n \<Rightarrow> n)" "0 \<le> maxResults"
    and fs: "getRelevantChunks (manifest st1) (toUpperCase p) = Inr fs"
  shows "\<exists>st3. findMatchingAnswers bucket tGet tSet order p mx st0 =
     (Inr (take (nat maxResults) (sortByCountDesc
             (accumulatedMatches (toUpperCase p) maxResults (healthyChunks bucket (chunkCache st0) fs)))),
      setCachedResult tSet (toUpperCase p)
        (take (nat maxResults) (sortByCountDesc
             (accumulatedMatches (toUpperCase p) maxResults (healthyChunks bucket (chunkCache st0) fs))))
        st3) \<and> resultCache st3 = resultCache st2 \<and> manifest st3 = manifest st1"
proof -
  let ?P = "toUpperCase p"
  have norm: "\<forall>c \<in> set ?P. normalizedChar c" by (rule toUpperCase_normalized[OF pc])
  from RegExp_new_regexSource[OF norm]
  obtain r where r: "RegExp_new (regexSource ?P) = Some r" by blast
  from ne obtain c cs where P: "?P = c # cs" by (cases ?P) auto
  note k = getCachedResult_keeps[OF miss]
  have cc: "chunkCache st2 = chunkCache st0"
    using k loadManifest_caches[OF m] by simp
  have fs2: "getRelevantChunks (manifest st2) ?P = Inr fs" using fs k by simp
  let ?h = "healthyChunks bucket (chunkCache st0) fs"
  let ?acc = "accumulatedMatches ?P maxResults ?h"
  have mo: "matchesOf r ?h = filter (\<lambda>a. specMatches ?P (answer a)) (concat (map answers ?h))"
    by (simp add: matchesOf_def compiled_matches[OF norm r])
  have strat: "searchStrategy (analyzePattern ?P) = (if c = CHR ''?'' then ParallelOptimized else Direct)"
    unfolding P by (rule searchStrategy_analyzePattern)
  have mx: "(case mx of None \<Rightarrow> 100 | Some n \<Rightarrow> n) = maxResults" using mr(1) by simp
  show ?thesis
  proof (cases "c = CHR ''?''")
    case False
    from getRelevantChunks_literal[OF fs2[unfolded P] False] have l1: "length fs \<le> 1" .
    obtain found st3 where sd: "searchDirect bucket r fs [] st2 = (found, st3)"
      by (cases "searchDirect bucket r fs [] st2")
    have "found = matchesOf r (loadedInTurn bucket fs st2)"
      using searchDirect_loadedInTurn[of bucket r fs "[]" st2] sd by simp
    then have found: "found = ?acc"
      using False by (simp add: loadedInTurn_single[OF l1] cc mo accumulatedMatches_def P)
    have keep: "resultCache st3 = resultCache st2 \<and> manifest st3 = manifest st1"
      using searchDirect_keeps[OF sd] k by simp
    have "findMatchingAnswers bucket tGet tSet order p mx st0 =
        (Inr (jsSlice0 (sortByCountDesc found) maxResults),
         setCachedResult tSet ?P (jsSlice0 (sortByCountDesc found) maxResults) st3)"
      unfolding findMatchingAnswers_def Let_def mx
      by (simp add: m miss r fs2 strat False sd)
    then show ?thesis using keep
      by (intro exI[of _ st3]) (simp add: found jsSlice0_take[OF mr(2)])
  next
    case True
    obtain loaded st3 where lp: "loadChunksParallel bucket order fs st2 = (loaded, st3)"
      by (cases "loadChunksParallel bucket order fs st2")
    have loaded: "loaded = ?h"
      using fst_loadChunksParallel[of bucket order fs st2] lp cc by simp
    have keep: "resultCache st3 = resultCache st2 \<and> manifest st3 = manifest st1"
      using loadChunksParallel_keeps[OF lp] k by simp
    let ?found = "scanChunksParallel r maxResults ?h []"
    have call: "findMatchingAnswers bucket tGet tSet order p mx st0 =
        (Inr (jsSlice0 (sortByCountDesc ?found) maxResults),
         setCachedResult tSet ?P (jsSlice0 (sortByCountDesc ?found) maxResults) st3)"
      unfolding findMatchingAnswers_def Let_def mx
      by (simp add: m miss r fs2 strat True lp loaded)
    have eq: "take (nat maxResults) (sortByCountDesc ?found) = take (nat maxResults) (sortByCountDesc ?acc)"
    proof (cases "maxResults = 0")
      case True then show ?thesis by simp
    next
      case False
      with mr(2) have "1 \<le> maxResults" by simp
      from scanChunksParallel_take[OF this, of r ?h]
      have "?found = ?acc" using \<open>c = CHR ''?''\<close> by (simp add: mo accumulatedMatches_def P)
      then show ?thesis by simp
    qed
    show ?thesis using keep call
      by (intro exI[of _ st3]) (simp add: eq jsSlice0_take[OF mr(2)])
  qed
qed





section \<open>The result cache and maxResults\<close>

lemma map_of_mapSet_same: "map_of (mapSet k v m) k = Some v"
  by (induction m) auto

lemma loadManifest_loaded:
  "manifest st = Some m \<Longrightarrow> loadManifest bucket st = Inr st"
  by (simp add: loadManifest_def)

lemma setCachedResult_lookup:
  "map_of (resultCache (setCachedResult now p rs st)) (getCacheKey p)
     = Some \<lparr>results = rs, timestamp = now\<rparr>"
  by (simp add: setCachedResult_def Let_def map_of_mapSet_same)

lemma setCachedResult_manifest:
  "manifest (setCachedResult now p rs st) = manifest st"
  by (simp add: setCachedResult_def Let_def)

lemma getCachedResult_hit:
  assumes "map_of (resultCache st) (getCacheKey p) = Some cached"
    and "now - timestamp cached \<le> CACHE_TTL"
  shows "getCachedResult now p st = (Some (results cached), st)"
  using assms by (simp add: getCachedResult_def Let_def)

lemma findMatchingAnswers_hit:
  assumes "manifest st = Some m"
    and "map_of (resultCache st) (getCacheKey (toUpperCase p)) = Some cached"
    and "now - timestamp cached \<le> CACHE_TTL"
  shows "findMatchingAnswers bucket now tSet order p mx st =
           (Inr (jsSlice0 (results cached) (case mx of None \<Rightarrow> 100 | Some n \<Rightarrow> n)), st)"
  by (simp add: findMatchingAnswers_def loadManifest_loaded[OF assms(1)]
        getCachedResult_hit[OF assms(2,3)])

text \<open>
  A first call with \<open>maxResults = 5\<close> caches both matches of \<open>A?PLE\<close>. The call with
  \<open>maxResults = 1\<close> that follows is a cache hit and leaves the cached list as it is, so
  the call with \<open>maxResults = 2\<close> after it returns two results, more than 1.
\<close>

theorem second_call_exceeds_first_bound:
  "fst (findMatchingAnswers exampleBucket 2 2 [] ''A?PLE'' (Some 2)
     (snd (findMatchingAnswers exampleBucket 1 1 [] ''A?PLE'' (Some 1)
        (snd (findMatchingAnswers exampleBucket 0 0 [] ''A?PLE'' (Some 5) newLoader)))))
   = Inr [\<lparr>answer = ''APPLE'', count = 12\<rparr>, \<lparr>answer = ''AMPLE'', count = 3\<rparr>] \<and>
   fst (findMatchingAnswers exampleBucket 1 1 [] ''A?PLE'' (Some 1)
        (snd (findMatchingAnswers exampleBucket 0 0 [] ''A?PLE'' (Some 5) newLoader)))
   = Inr [\<lparr>answer = ''APPLE'', count = 12\<rparr>]"
  by code_simp

text \<open>
  Claim C10, as amended. The key of the result cache is the normalised pattern alone.
  When a call with \<open>maxResults = m1 \<ge> 0\<close> misses the result cache, so that it stores its
  own list, and a call for a pattern with the same normalisation and \<open>m2 > m1\<close> reads
  the clock within the TTL of that entry, the second call returns the list of the first,
  hence at most \<open>m1\<close> results, and changes nothing in the loader.
\<close>

theorem cached_list_serves_larger_bound:
  assumes m: "loadManifest bucket st0 = Inr st1"
    and ne: "p \<noteq> []" and pc: "\<forall>c \<in> set p. patternChar c"
    and same: "toUpperCase p' = toUpperCase p"
    and miss: "fst (getCachedResult tGet1 (toUpperCase p) st1) = None"
    and b1: "0 \<le> m1" and b2: "m1 < m2"
    and ttl: "tGet2 - tSet1 \<le> CACHE_TTL"
    and c1: "findMatchingAnswers bucket tGet1 tSet1 order1 p (Some m1) st0 = (r1, stA)"
    and c2: "findMatchingAnswers bucket tGet2 tSet2 order2 p' (Some m2) stA = (r2, stB)"
  shows "\<exists>rs. r1 = Inr rs \<and> r2 = Inr rs \<and> length rs \<le> nat m1 \<and> stB = stA"
proof -
  let ?P = "toUpperCase p"
  from miss obtain st2 where g: "getCachedResult tGet1 ?P st1 = (None, st2)"
    by (cases "getCachedResult tGet1 ?P st1") auto
  from ne have "?P \<noteq> []" by simp
  from getRelevantChunks_total[OF this] obtain fs where
    fs: "getRelevantChunks (manifest st1) ?P = Inr fs" by blast
  let ?rs = "take (nat m1) (sortByCountDesc
             (accumulatedMatches ?P m1 (healthyChunks bucket (chunkCache st0) fs)))"
  from findMatchingAnswers_miss[OF m ne pc g _ b1 fs, of "Some m1" tSet1 order1] c1
  obtain st3 where r1: "r1 = Inr ?rs" and stA: "stA = setCachedResult tSet1 ?P ?rs st3"
    and mf: "manifest st3 = manifest st1" by auto
  from loadManifest_Some[OF m] obtain mm where "manifest st1 = Some mm" by blast
  then have mA: "manifest stA = Some mm" by (simp add: stA setCachedResult_manifest mf)
  have look: "map_of (resultCache stA) (getCacheKey (toUpperCase p'))
      = Some \<lparr>results = ?rs, timestamp = tSet1\<rparr>"
    unfolding same stA by (rule setCachedResult_lookup)
  have fresh: "tGet2 - timestamp \<lparr>results = ?rs, timestamp = tSet1\<rparr> \<le> CACHE_TTL"
    using ttl by simp
  from findMatchingAnswers_hit[OF mA look fresh, of bucket tSet2 order2 "Some m2"] c2
  have r2: "r2 = Inr (jsSlice0 ?rs m2)" and sB: "stB = stA" by simp_all
  have len: "length ?rs \<le> nat m1" by simp
  have "jsSlice0 ?rs m2 = ?rs" using len b1 b2 by (simp add: jsSlice0_def)
  with r1 r2 sB len show ?thesis by simp
qed

theorem cached_list_serves_larger_bound_witness:
  "loadManifest exampleBucket newLoader = Inr (newLoader\<lparr>manifest := Some exampleManifest\<rparr>) \<and>
   ''a?ple'' \<noteq> [] \<and> list_all patternChar ''a?ple'' \<and>
   toUpperCase ''A?PLE'' = toUpperCase ''a?ple'' \<and>
   fst (getCachedResult 0 (toUpperCase ''a?ple'') (newLoader\<lparr>manifest := Some exampleManifest\<rparr>)) = None \<and>
   (0::int) \<le> 1 \<and> (1::int) < 2 \<and> (300000::int) - 0 \<le> CACHE_TTL \<and>
   fst (findMatchingAnswers exampleBucket 0 0 [] ''a?ple'' (Some 1) newLoader)
     = Inr [\<lparr>answer = ''APPLE'', count = 12\<rparr>] \<and>
   fst (findMatchingAnswers exampleBucket 300000 300000 [] ''A?PLE'' (Some 2)
          (snd (findMatchingAnswers exampleBucket 0 0 [] ''a?ple'' (Some 1) newLoader)))
     = Inr [\<lparr>answer = ''APPLE'', count = 12\<rparr>] \<and>
   fst (findMatchingAnswers exampleBucket 300000 300000 [] ''A?PLE'' (Some 2) newLoader)
     = Inr [\<lparr>answer = ''APPLE'', count = 12\<rparr>, \<lparr>answer = ''AMPLE'', count = 3\<rparr>]"
proof -
  let ?st1 = "newLoader\<lparr>manifest := Some exampleManifest\<rparr>"
  let ?c1 = "findMatchingAnswers exampleBucket 0 0 [] ''a?ple'' (Some 1) newLoader"
  let ?c2 = "findMatchingAnswers exampleBucket 300000 300000 [] ''A?PLE'' (Some 2) (snd ?c1)"
  have m: "loadManifest exampleBucket newLoader = Inr ?st1" by code_simp
  have ne: "''a?ple'' \<noteq> []" by simp
  have l: "list_all patternChar ''a?ple''" by code_simp
  then have pc: "\<forall>c \<in> set ''a?ple''. patternChar c" by (simp only: list_all_iff)
  have same: "toUpperCase ''A?PLE'' = toUpperCase ''a?ple''" by code_simp
  have miss: "fst (getCachedResult 0 (toUpperCase ''a?ple'') ?st1) = None" by code_simp
  have b1: "(0::int) \<le> 1" and b2: "(1::int) < 2" by simp_all
  have ttl: "(300000::int) - 0 \<le> CACHE_TTL" by (simp add: CACHE_TTL_def)
  have v1: "fst ?c1 = Inr [\<lparr>answer = ''APPLE'', count = 12\<rparr>]" by code_simp
  have fresh: "fst (findMatchingAnswers exampleBucket 300000 300000 [] ''A?PLE'' (Some 2) newLoader)
     = Inr [\<lparr>answer = ''APPLE'', count = 12\<rparr>, \<lparr>answer = ''AMPLE'', count = 3\<rparr>]" by code_simp
  have c1: "?c1 = (fst ?c1, snd ?c1)" and c2: "?c2 = (fst ?c2, snd ?c2)" by simp_all
  from cached_list_serves_larger_bound[OF m ne pc same miss b1 b2 ttl c1 c2]
  obtain rs where "fst ?c1 = Inr rs" "fst ?c2 = Inr rs" by auto
  with v1 have "fst ?c2 = Inr [\<lparr>answer = ''APPLE'', count = 12\<rparr>]" by simp
  with m ne l same miss b1 b2 ttl v1 fresh show ?thesis by blast
qed


section \<open>The bounded caches\<close>



lemma mapFirstKey_keys:
  "mapFirstKey m = (case map fst m of [] \<Rightarrow> None | k # ks \<Rightarrow> Some k)"
  by (cases m) (simp_all add: mapFirstKey_def)









































end
